theory Spec2Isabelle
  imports Main "HOL-Library.Multiset"
begin

section \<open>Python values and exceptions\<close>

text \<open>
  The exceptions the modelled functions can raise. A function that can raise returns
  \<open>py_error + 'a\<close>, with \<open>Inl\<close> for the exception.
\<close>

datatype py_error =
    IndexError
  | UnboundLocalError
  | StorageNoSuchKeyError
  | FileNotFoundError
  | AssertionError
  | FetchError

text \<open>
  A Python value that is either an \<open>int\<close> or a \<open>str\<close>: the local variable \<open>key\<close> of
  \<open>distribute_indexes\<close> is bound to a source key (a string) by the first loop and to an
  index (an integer) by the second one.
\<close>

datatype pyval = PyInt int | PyStr string

section \<open>Partition Balancer: \<open>distribute_indexes\<close> (reducer/reduce_functions.py)\<close>

subsection \<open>Counting the indexes (lines 105-130)\<close>

text \<open>
  \<open>count_indexes\<close> is a Python dict; a dict iterates in insertion order, so it is an
  association list in insertion order. \<open>count_index d i\<close> is the statement
  \<open>count_indexes[index] = count_indexes.get(index, 0) + 1\<close>: an index already present keeps
  its position, a new one is appended.
\<close>

fun count_index :: "(int \<times> int) list \<Rightarrow> int \<Rightarrow> (int \<times> int) list" where
  "count_index [] i = [(i, 1)]"
| "count_index ((k, c) # d) i = (if k = i then (k, c + 1) # d else (k, c) # count_index d i)"

text \<open>
  A source is a key of the map phase together with the integers its S3 SELECT returns
  (\<open>int_indexes\<close>, after the split into lines and the conversion by \<open>int\<close>).
\<close>

type_synonym source = "string \<times> int list"

text \<open>
  The inner loop \<open>for index in int_indexes\<close>, on the dict and the loop variable \<open>index\<close>.
  A Python loop variable keeps its last value after the loop, and \<open>index\<close> is the very
  variable the distribution below reads: it has no value (\<open>None\<close>) only as long as no
  integer was read.
\<close>

fun count_source :: "(int \<times> int) list \<times> int option \<Rightarrow> int list \<Rightarrow> (int \<times> int) list \<times> int option" where
  "count_source (d, ix) [] = (d, ix)"
| "count_source (d, ix) (i # int_indexes) = count_source (count_index d i, Some i) int_indexes"

text \<open>The outer loop \<open>for key in keys\<close>, over the sources in order.\<close>

definition count_loop :: "source list \<Rightarrow> (int \<times> int) list \<times> int option" where
  "count_loop srcs = foldl (\<lambda>st src. count_source st (snd src)) ([], None) srcs"

definition count_indexes :: "source list \<Rightarrow> (int \<times> int) list" where
  "count_indexes srcs = fst (count_loop srcs)"

subsection \<open>Distributing the indexes (lines 137-148)\<close>

definition MAX_INDEXES :: int where
  "MAX_INDEXES = 20000000"

text \<open>
  The local variables of the loop. \<open>index\<close> and \<open>key\<close> hold whatever the counting loops left
  in them; \<open>None\<close> is a variable that was never assigned.
\<close>

record balancer =
  workers_data :: "pyval list"
  indexes :: int
  index :: "int option"
  key :: "pyval option"

text \<open>
  The loop \<open>for key in count_indexes\<close> with the budget \<open>M\<close> in place of \<open>MAX_INDEXES\<close>.
  Reading \<open>index\<close> when it was never assigned raises \<open>UnboundLocalError\<close>.
\<close>

fun distribute_loop :: "int \<Rightarrow> (int \<times> int) list \<Rightarrow> balancer \<Rightarrow> py_error + balancer" where
  "distribute_loop M [] s = Inr s"
| "distribute_loop M ((k, c) # rest) s =
     (if indexes s + c < M
      then distribute_loop M rest
             (s\<lparr>key := Some (PyInt k), indexes := indexes s + c, index := Some k\<rparr>)
      else (case index s of
              None \<Rightarrow> Inl UnboundLocalError
            | Some i \<Rightarrow>
                distribute_loop M rest
                  (s\<lparr>key := Some (PyInt k), indexes := 0,
                      workers_data := workers_data s @ [PyInt i]\<rparr>)))"

text \<open>
  Lines 137-148: the initialisation, the loop and the final \<open>workers_data.append(key)\<close>.
  \<open>key0\<close> and \<open>index0\<close> are the bindings of \<open>key\<close> and \<open>index\<close> when the loop starts.
\<close>

definition distribute_counts ::
  "int \<Rightarrow> pyval option \<Rightarrow> int option \<Rightarrow> (int \<times> int) list \<Rightarrow> py_error + pyval list" where
  "distribute_counts M key0 index0 cs =
     (case distribute_loop M cs \<lparr>workers_data = [], indexes = 0, index = index0, key = key0\<rparr> of
        Inl e \<Rightarrow> Inl e
      | Inr s \<Rightarrow>
          (case key s of
             None \<Rightarrow> Inl UnboundLocalError
           | Some k \<Rightarrow> Inr (workers_data s @ [k])))"

text \<open>
  The whole function on its sources, with the budget as a parameter. \<open>keys[0]\<close> (line 99)
  raises \<open>IndexError\<close> on an empty tuple of sources; after the counting loops \<open>key\<close> is
  bound to the last source key and \<open>index\<close> to the last integer read. The statistics the
  function returns beside \<open>workers_data\<close> are telemetry and are left out.
\<close>

definition distribute_indexes_budget :: "int \<Rightarrow> source list \<Rightarrow> py_error + pyval list" where
  "distribute_indexes_budget M srcs =
     (case srcs of
        [] \<Rightarrow> Inl IndexError
      | _ # _ \<Rightarrow>
          (case count_loop srcs of
             (cs, index0) \<Rightarrow> distribute_counts M (Some (PyStr (fst (last srcs)))) index0 cs))"

definition distribute_indexes :: "source list \<Rightarrow> py_error + pyval list" where
  "distribute_indexes srcs = distribute_indexes_budget MAX_INDEXES srcs"

text \<open>
  The example of the spec (section 8) as one source of 110 records in ascending order: the
  keys 1, 2, 3 and 4 five times each, the key 5 ninety times.
\<close>

definition example_source :: source where
  "example_source =
     (''a.mpileup'',
      replicate 5 1 @ replicate 5 2 @ replicate 5 3 @ replicate 5 4 @ replicate 90 5)"

subsection \<open>The ranges the boundaries stand for\<close>

text \<open>
  Modelled from the spec: the caller that turns the boundaries into PartitionRanges
  (reducer/reduce_caller.py) is not among the sources. The spec reads the output as range
  ends, "consumed together with the implicit start (previous boundary + 1, or domain
  minimum for the first range)", and a Reduce Worker selects the rows whose key is
  \<open>BETWEEN start AND end\<close>, both ends included.
\<close>

fun ranges_from :: "int \<Rightarrow> int list \<Rightarrow> (int \<times> int) list" where
  "ranges_from lo [] = []"
| "ranges_from lo (b # bs) = (lo, b) # ranges_from (b + 1) bs"

definition domain_min :: "(int \<times> int) list \<Rightarrow> int" where
  "domain_min cs = Min (set (map fst cs))"

definition partition_ranges :: "(int \<times> int) list \<Rightarrow> int list \<Rightarrow> (int \<times> int) list" where
  "partition_ranges cs bs = ranges_from (domain_min cs) bs"

definition in_range :: "int \<times> int \<Rightarrow> int \<Rightarrow> bool" where
  "in_range r k = (fst r \<le> k \<and> k \<le> snd r)"

text \<open>The number of records of a range: the counts of the keys inside its interval.\<close>

definition range_count :: "(int \<times> int) list \<Rightarrow> int \<times> int \<Rightarrow> int" where
  "range_count cs r = sum_list (map snd (filter (\<lambda>kc. in_range r (fst kc)) cs))"

definition total_count :: "(int \<times> int) list \<Rightarrow> int" where
  "total_count cs = sum_list (map snd cs)"

text \<open>The number of ranges that contain the key \<open>k\<close>.\<close>

definition covering :: "(int \<times> int) list \<Rightarrow> int \<Rightarrow> nat" where
  "covering rs k = length (filter (\<lambda>r. in_range r k) rs)"

subsection \<open>The invariant of the loop on an ascending key domain\<close>

text \<open>
  \<open>wd\<close> are the boundaries appended so far. They are ascending, none is above a key still
  to come, and the remembered \<open>index\<close>, once assigned, lies between them and the keys to
  come.
\<close>

definition loop_inv :: "balancer \<Rightarrow> int list \<Rightarrow> (int \<times> int) list \<Rightarrow> bool" where
  "loop_inv s wd cs =
     (workers_data s = map PyInt wd \<and> sorted wd
      \<and> (\<forall>x\<in>set wd. \<forall>k\<in>set (map fst cs). x \<le> k)
      \<and> (\<forall>i. index s = Some i \<longrightarrow> (\<forall>x\<in>set wd. x \<le> i) \<and> (\<forall>k\<in>set (map fst cs). i \<le> k)))"

section \<open>Multipart Upload Coordinator: \<open>finish\<close> and \<open>complete_multipart\<close> (reducer/reduce_functions.py)\<close>

text \<open>
  A collected part is the dict a reduce function returns:
  \<open>{"PartNumber": n_part, "ETag": part["ETag"], "mpu_id": mpu_id}\<close>.
\<close>

record upload_part =
  PartNumber :: int
  ETag :: string
  mpu_id :: string

text \<open>An entry of the completion list: \<open>{"PartNumber": ..., "ETag": ...}\<close>.\<close>

type_synonym part_entry = "int \<times> string"

definition entry :: "upload_part \<Rightarrow> part_entry" where
  "entry p = (PartNumber p, ETag p)"

text \<open>
  The effect of the two functions is their calls of \<open>s3.complete_multipart_upload\<close>; a call
  is recorded with its \<open>Key\<close>, its \<open>UploadId\<close> and the \<open>Parts\<close> of its
  \<open>MultipartUpload\<close> argument, in the order of the list passed.
\<close>

record complete_call =
  Key :: string
  UploadId :: string
  Parts :: "part_entry list"

text \<open>
  The loop \<open>for part in parts\<close> of both functions, on the pair \<open>(mpu_part, remove)\<close>: a part
  of the upload is appended and counted, the first part of another upload ends the loop
  (\<open>break\<close>).
\<close>

fun collect_parts :: "string \<Rightarrow> upload_part list \<Rightarrow> part_entry list \<times> nat \<Rightarrow> part_entry list \<times> nat" where
  "collect_parts m [] acc = acc"
| "collect_parts m (part # rest) (mpu_part, remove) =
     (if m = mpu_id part
      then collect_parts m rest (mpu_part @ [(PartNumber part, ETag part)], remove + 1)
      else (mpu_part, remove))"

definition finish :: "string \<Rightarrow> string \<Rightarrow> upload_part list \<Rightarrow> complete_call" where
  "finish k m parts = \<lparr>Key = k, UploadId = m, Parts = fst (collect_parts m parts ([], 0))\<rparr>"

text \<open>
  The loop \<open>for key, mpu_id in zip(keys, mpu_ids)\<close>; \<open>parts = parts[remove:]\<close> drops the
  parts the inner loop consumed.
\<close>

fun complete_loop :: "(string \<times> string) list \<Rightarrow> upload_part list \<Rightarrow> complete_call list" where
  "complete_loop [] parts = []"
| "complete_loop ((k, m) # rest) parts =
     (case collect_parts m parts ([], 0) of
        (mpu_part, remove) \<Rightarrow>
          \<lparr>Key = k, UploadId = m, Parts = mpu_part\<rparr> # complete_loop rest (drop remove parts))"

definition complete_multipart :: "string list \<Rightarrow> string list \<Rightarrow> upload_part list \<Rightarrow> complete_call list" where
  "complete_multipart keys mpu_ids parts = complete_loop (zip keys mpu_ids) parts"

subsection \<open>What the specification asks of the completion\<close>

text \<open>The parts of the list that carry the upload id \<open>m\<close>, in arrival order.\<close>

definition parts_of :: "string \<Rightarrow> upload_part list \<Rightarrow> upload_part list" where
  "parts_of m parts = filter (\<lambda>p. mpu_id p = m) parts"

text \<open>
  The completion list the specification asks for: exactly the parts of the upload, in
  ascending part-number order.
\<close>

definition expected_parts :: "upload_part list \<Rightarrow> string \<Rightarrow> part_entry list" where
  "expected_parts parts m = sort_key fst (map entry (parts_of m parts))"

text \<open>
  The list of collected parts is grouped when it is the parts of the first upload, then
  those of the second, and so on, in the order of \<open>mpu_ids\<close>.
\<close>

definition grouped_by :: "string list \<Rightarrow> upload_part list \<Rightarrow> bool" where
  "grouped_by mpu_ids parts = (parts = concat (map (\<lambda>m. parts_of m parts) mpu_ids))"

text \<open>
  The example of the spec (section 8): three uploads of two parts each, arriving as
  U1P1, U2P1, U1P2, U3P1, U2P2, U3P2.
\<close>

definition interleaved_example :: "upload_part list" where
  "interleaved_example =
     [\<lparr>PartNumber = 1, ETag = ''e11'', mpu_id = ''U1''\<rparr>,
      \<lparr>PartNumber = 1, ETag = ''e21'', mpu_id = ''U2''\<rparr>,
      \<lparr>PartNumber = 2, ETag = ''e12'', mpu_id = ''U1''\<rparr>,
      \<lparr>PartNumber = 1, ETag = ''e31'', mpu_id = ''U3''\<rparr>,
      \<lparr>PartNumber = 2, ETag = ''e22'', mpu_id = ''U2''\<rparr>,
      \<lparr>PartNumber = 2, ETag = ''e32'', mpu_id = ''U3''\<rparr>]"

section \<open>Grouping keys by fasta split: \<open>keys_by_fasta_split\<close> (reducer/reduce_functions.py)\<close>

text \<open>
  Python's \<open>str.split(sep)\<close> for a non-empty separator: the string is scanned from the
  left, every occurrence of the separator found ends a piece, and the scan goes on behind
  it. The pieces are never an empty list. (With an empty separator Python raises
  \<open>ValueError\<close>; the function only splits at the literals \<open>"/"\<close> and \<open>"fa"\<close>.)
\<close>

function py_split :: "string \<Rightarrow> string \<Rightarrow> string list" where
  "py_split sep [] = [[]]"
| "py_split sep (c # cs) =
     (if sep \<noteq> [] \<and> take (length sep) (c # cs) = sep
      then [] # py_split sep (drop (length sep) (c # cs))
      else (case py_split sep cs of
              [] \<Rightarrow> [[c]]
            | p # ps \<Rightarrow> (c # p) # ps))"
  by pat_completeness auto
termination
  by (relation "measure (\<lambda>(sep, s). length s)") auto

text \<open>
  Lines 262-263: \<open>k.split("/")[-1]\<close>, then \<open>.split("fa")[-1]\<close>. The index \<open>-1\<close> is the last
  piece.
\<close>

definition split_tail :: "string \<Rightarrow> string" where
  "split_tail k = last (py_split ''fa'' (last (py_split ''/'' k)))"

text \<open>
  Line 264: \<open>fasta_split[0]\<close> raises \<open>IndexError\<close> on the empty string; otherwise the split
  id is the string of the first character.
\<close>

definition fasta_split_of :: "string \<Rightarrow> py_error + string" where
  "fasta_split_of k = (case split_tail k of [] \<Rightarrow> Inl IndexError | c # _ \<Rightarrow> Inr [c])"

text \<open>
  \<open>key_dict\<close> is a \<open>defaultdict(list)\<close>, in insertion order.
  \<open>append_key d g k\<close> is \<open>key_dict[str(fasta_split)].append(k)\<close>: a missing group starts as the
  empty list.
\<close>

type_synonym key_dict = "(string \<times> string list) list"

fun append_key :: "key_dict \<Rightarrow> string \<Rightarrow> string \<Rightarrow> key_dict" where
  "append_key [] g k = [(g, [k])]"
| "append_key ((g', ks) # d) g k =
     (if g' = g then (g', ks @ [k]) # d else (g', ks) # append_key d g k)"

fun split_loop :: "string list \<Rightarrow> key_dict \<Rightarrow> py_error + key_dict" where
  "split_loop [] d = Inr d"
| "split_loop (k # keys) d =
     (case fasta_split_of k of
        Inl e \<Rightarrow> Inl e
      | Inr g \<Rightarrow> split_loop keys (append_key d g k))"

definition keys_by_fasta_split :: "string list \<Rightarrow> py_error + key_dict" where
  "keys_by_fasta_split keys = split_loop keys []"

subsection \<open>The final path segment and the occurrences of a substring\<close>

text \<open>The final path segment of a key: the text behind its last \<open>/\<close>.\<close>

definition final_segment :: "string \<Rightarrow> string" where
  "final_segment k = rev (takeWhile (\<lambda>c. c \<noteq> CHR ''/'') (rev k))"

text \<open>\<open>occurs sep s\<close>: the string \<open>sep\<close> occurs somewhere in \<open>s\<close>.\<close>

fun occurs :: "string \<Rightarrow> string \<Rightarrow> bool" where
  "occurs sep [] = (sep = [])"
| "occurs sep (c # cs) = (take (length sep) (c # cs) = sep \<or> occurs sep cs)"

text \<open>Every key of every group has the id of the group as its split id.\<close>

definition placed :: "key_dict \<Rightarrow> bool" where
  "placed d = (\<forall>(g, ks)\<in>set d. \<forall>k\<in>set ks. g = [hd (split_tail k)])"

section \<open>Chunk stage functions: \<open>gem_indexer\<close> and \<open>align_mapper\<close> (mapping/alignment_mapper.py)\<close>

subsection \<open>Strings and paths\<close>

text \<open>\<open>str(i)\<close> for a Python integer, as the f-strings of the key names use it.\<close>

definition digit_char :: "nat \<Rightarrow> char" where
  "digit_char d = ''0123456789'' ! d"

function str_nat :: "nat \<Rightarrow> string" where
  "str_nat n = (if n < 10 then [digit_char n] else str_nat (n div 10) @ [digit_char (n mod 10)])"
  by pat_completeness auto
termination
  by (relation "measure (\<lambda>n. n)") auto

declare str_nat.simps [simp del]

definition str_int :: "int \<Rightarrow> string" where
  "str_int i = (if i < 0 then ''-'' @ str_nat (nat (- i)) else str_nat (nat i))"

text \<open>
  \<open>os.path.join(a, *p)\<close> on POSIX: a component that starts with \<open>/\<close> discards what came
  before it; otherwise it is appended, behind a \<open>/\<close> unless the path is empty or ends with
  one.
\<close>

definition join_component :: "string \<Rightarrow> string \<Rightarrow> string" where
  "join_component path b =
     (if b \<noteq> [] \<and> hd b = CHR ''/'' then b
      else if path = [] \<or> last path = CHR ''/'' then path @ b
      else path @ ''/'' @ b)"

definition os_path_join :: "string \<Rightarrow> string list \<Rightarrow> string" where
  "os_path_join a p = foldl join_component a p"

subsection \<open>The world of a stage function\<close>

text \<open>
  What a stage function does to its surroundings, in order: its calls of the object
  store, of the local file system and of the external tools.
\<close>

datatype event =
    HeadObject string
  | Mkdtemp string
  | Chdir string
  | Fetch string
  | DownloadFile string string
  | Run "string list"
  | UploadFile string string
  | DeleteLocalPath string

text \<open>
  The object store is the list of the keys it holds (one bucket); the local file system is
  the working directory and the list of the paths that exist.
\<close>

record world =
  objects :: "string list"
  cwd :: string
  local_paths :: "string list"
  trace :: "event list"

text \<open>
  What the surroundings answer during one invocation; the function does not choose it. The
  directory \<open>tempfile.mkdtemp()\<close> creates, whether the two fetches of the data source
  succeed, the number of cores, and the exit status of the external tool together with
  the files it leaves in the working directory.
\<close>

record env =
  mkdtemp_dir :: string
  fetch_fastq_ok :: bool
  fetch_fasta_ok :: bool
  cpu_count :: int
  tool_returncode :: int
  tool_outputs :: "string list"

text \<open>The fields of \<open>PipelineParameters\<close> the two functions read.\<close>

record params =
  tmp_prefix :: string
  sra_accession :: string
  base_name :: string

text \<open>A chunk dict; only its \<open>chunk_id\<close> is read.\<close>

record chunk =
  chunk_id :: int

text \<open>
  A step runs in a world and either raises (\<open>Some\<close> exception) or completes (\<open>None\<close>).
  A sequence of statements stops at the first exception; \<open>try: body finally: final\<close> runs
  \<open>final\<close> after \<open>body\<close> on every path and re-raises the exception of \<open>body\<close>.
\<close>

type_synonym step = "world \<Rightarrow> py_error option \<times> world"

fun run_steps :: "step list \<Rightarrow> step" where
  "run_steps [] w = (None, w)"
| "run_steps (f # fs) w =
     (case f w of
        (Some e, w') \<Rightarrow> (Some e, w')
      | (None, w') \<Rightarrow> run_steps fs w')"

definition try_finally :: "step \<Rightarrow> step \<Rightarrow> step" where
  "try_finally body final w =
     (case body w of
        (r, w1) \<Rightarrow>
          (case final w1 of
             (Some e, w2) \<Rightarrow> (Some e, w2)
           | (None, w2) \<Rightarrow> (r, w2)))"

definition log_event :: "event \<Rightarrow> world \<Rightarrow> world" where
  "log_event e w = w\<lparr>trace := trace w @ [e]\<rparr>"

text \<open>A relative file name denotes a path below the working directory.\<close>

definition resolve :: "world \<Rightarrow> string \<Rightarrow> string" where
  "resolve w name = os_path_join (cwd w) [name]"

definition path_exists :: "world \<Rightarrow> string \<Rightarrow> bool" where
  "path_exists w name = (resolve w name \<in> set (local_paths w))"

definition create_path :: "string \<Rightarrow> world \<Rightarrow> world" where
  "create_path name w =
     (if path_exists w name then w else w\<lparr>local_paths := local_paths w @ [resolve w name]\<rparr>)"

text \<open>\<open>storage.head_object\<close> raises \<open>StorageNoSuchKeyError\<close> when the key is missing.\<close>

definition head_object :: "string \<Rightarrow> step" where
  "head_object k w =
     (if k \<in> set (objects w) then (None, log_event (HeadObject k) w)
      else (Some StorageNoSuchKeyError, log_event (HeadObject k) w))"

definition mkdtemp :: "string \<Rightarrow> world \<Rightarrow> world" where
  "mkdtemp d w = log_event (Mkdtemp d) (w\<lparr>local_paths := local_paths w @ [d]\<rparr>)"

definition chdir :: "string \<Rightarrow> world \<Rightarrow> world" where
  "chdir d w = log_event (Chdir d) (w\<lparr>cwd := d\<rparr>)"

text \<open>
  The fetches of the data source (\<open>fetch_fastq_chunk\<close>, \<open>fetch_fasta_chunk\<close>) are outside
  the sources: a fetch that succeeds leaves the chunk file in the working directory, one
  that fails raises.
\<close>

definition fetch_chunk :: "bool \<Rightarrow> string \<Rightarrow> step" where
  "fetch_chunk ok name w =
     (if ok then (None, create_path name (log_event (Fetch name) w))
      else (Some FetchError, log_event (Fetch name) w))"

text \<open>\<open>os.path.getsize\<close> raises on a path that does not exist.\<close>

definition getsize :: "string \<Rightarrow> step" where
  "getsize name w = (if path_exists w name then (None, w) else (Some FileNotFoundError, w))"

definition download_file :: "string \<Rightarrow> string \<Rightarrow> step" where
  "download_file k name w =
     (if k \<in> set (objects w) then (None, create_path name (log_event (DownloadFile k name) w))
      else (Some StorageNoSuchKeyError, log_event (DownloadFile k name) w))"

text \<open>
  \<open>subprocess.run(cmd, capture_output=True)\<close> without \<open>check\<close>: whatever the exit status,
  the call returns; the tool has left its files in the working directory.
\<close>

definition run_tool :: "string list \<Rightarrow> string list \<Rightarrow> step" where
  "run_tool cmd outputs w = (None, foldr create_path outputs (log_event (Run cmd) w))"

definition py_assert :: "bool \<Rightarrow> step" where
  "py_assert b w = (if b then (None, w) else (Some AssertionError, w))"

text \<open>\<open>shutil.move(src, dst)\<close>: the source must exist; afterwards it is at \<open>dst\<close>.\<close>

definition remove_path :: "string \<Rightarrow> world \<Rightarrow> world" where
  "remove_path name w = w\<lparr>local_paths := removeAll (resolve w name) (local_paths w)\<rparr>"

definition move :: "string \<Rightarrow> string \<Rightarrow> step" where
  "move src dst w =
     (if path_exists w src then (None, create_path dst (remove_path src w))
      else (Some FileNotFoundError, w))"

text \<open>
  \<open>with zipfile.ZipFile(zipped, "w", ...) as zf: zf.write(member, ...)\<close>: the archive is
  created, then the member is read.
\<close>

definition zip_write :: "string \<Rightarrow> string \<Rightarrow> step" where
  "zip_write zipped member w =
     (if path_exists w member then (None, create_path zipped w)
      else (Some FileNotFoundError, create_path zipped w))"

definition put_object :: "string \<Rightarrow> world \<Rightarrow> world" where
  "put_object k w = w\<lparr>objects := (if k \<in> set (objects w) then objects w else objects w @ [k])\<rparr>"

definition upload_file :: "string \<Rightarrow> string \<Rightarrow> step" where
  "upload_file name k w =
     (if path_exists w name then (None, log_event (UploadFile name k) (put_object k w))
      else (Some FileNotFoundError, w))"

text \<open>
  \<open>force_delete_local_path\<close> (utils.py): an existing file is removed, an existing
  directory is removed with everything below it.
\<close>

definition below :: "string \<Rightarrow> string \<Rightarrow> bool" where
  "below d f = (f = d \<or> take (length d + 1) f = d @ ''/'')"

definition force_delete_local_path :: "string \<Rightarrow> world \<Rightarrow> world" where
  "force_delete_local_path d w =
     (if d \<in> set (local_paths w)
      then log_event (DeleteLocalPath d) (w\<lparr>local_paths := filter (\<lambda>f. \<not> below d f) (local_paths w)\<rparr>)
      else w)"

definition always :: "(world \<Rightarrow> world) \<Rightarrow> step" where
  "always f w = (None, f w)"

subsection \<open>\<open>gem_indexer\<close> (lines 27-91)\<close>


text \<open>
  The result is \<open>None\<close> when the function returns its statistics and the exception when
  it raises. \<open>gem_index_filename.replace(".gem", "")\<close> is \<open>str(fasta_chunk_id)\<close>.
\<close>

definition gem_indexer :: "int \<Rightarrow> chunk \<Rightarrow> env \<Rightarrow> step" where
  "gem_indexer fasta_chunk_id fasta_chunk ev w =
     (let gem_index_filename = str_int fasta_chunk_id @ ''.gem'' in
      case head_object (''gem/'' @ gem_index_filename) w of
        (None, w1) \<Rightarrow> (None, w1)
      | (Some StorageNoSuchKeyError, w1) \<Rightarrow>
          (let tmp_dir = mkdtemp_dir ev;
               w2 = mkdtemp tmp_dir w1;
               pwd = cwd w2;
               w3 = chdir tmp_dir w2;
               fasta_chunk_filename = ''chunk_'' @ str_int (chunk_id fasta_chunk) @ ''.fasta''
           in try_finally
                (run_steps
                   [fetch_chunk (fetch_fasta_ok ev) fasta_chunk_filename,
                    getsize fasta_chunk_filename,
                    run_tool [''gem-indexer'', ''--input'', fasta_chunk_filename, ''--threads'',
                              str_int (cpu_count ev), ''-o'', str_int fasta_chunk_id]
                             (tool_outputs ev),
                    py_assert (tool_returncode ev = 1),
                    upload_file gem_index_filename (''gem/'' @ gem_index_filename),
                    getsize gem_index_filename])
                (run_steps [always (chdir pwd), always (force_delete_local_path tmp_dir)])
                w3)
      | (Some e, w1) \<Rightarrow> (Some e, w1))"

subsection \<open>\<open>align_mapper\<close> (lines 94-231)\<close>

definition map_index_key :: "params \<Rightarrow> string \<Rightarrow> int \<Rightarrow> int \<Rightarrow> string" where
  "map_index_key p run_id fasta_chunk_id fastq_chunk_id =
     os_path_join (tmp_prefix p)
       [run_id, ''gem-mapper'', ''fq'' @ str_int fastq_chunk_id, ''fa'' @ str_int fasta_chunk_id,
        sra_accession p @ ''_map.index.txt.bz2'']"

definition filtered_map_key :: "params \<Rightarrow> string \<Rightarrow> int \<Rightarrow> int \<Rightarrow> string" where
  "filtered_map_key p run_id fasta_chunk_id fastq_chunk_id =
     os_path_join (tmp_prefix p)
       [run_id, ''gem-mapper'', ''fq'' @ str_int fastq_chunk_id, ''fa'' @ str_int fasta_chunk_id,
        sra_accession p @ ''_filt_wline_no.map.bz2'']"

text \<open>The value the function returns beside its statistics, on both returning paths.\<close>

type_synonym align_result = "int \<times> int \<times> string \<times> string"

text \<open>The \<open>try\<close> block of lines 146-229.\<close>

definition align_steps :: "params \<Rightarrow> string \<Rightarrow> int \<Rightarrow> chunk \<Rightarrow> int \<Rightarrow> chunk \<Rightarrow> env \<Rightarrow> step list" where
  "align_steps p run_id fasta_chunk_id fasta_chunk fastq_chunk_id fastq_chunk ev =
     (let tmp_dir = mkdtemp_dir ev;
          mapper_id = ''fa'' @ str_int fasta_chunk_id @ ''-fq'' @ str_int fastq_chunk_id;
          fastq_chunk_filename = ''chunk_'' @ str_int (chunk_id fastq_chunk) @ ''.fastq'';
          fasta_chunk_filename = ''chunk_'' @ str_int (chunk_id fasta_chunk) @ ''.fasta'';
          gem_index_filename = str_int fasta_chunk_id @ ''.gem'';
          map_index_filename = os_path_join tmp_dir [base_name p @ ''_map.index.txt''];
          filtered_map_filename =
            os_path_join tmp_dir [base_name p @ ''_'' @ mapper_id @ ''_filt_wline_no.map''];
          zipped_map_index_filename = map_index_filename @ ''.bz2'';
          zipped_filtered_map_filename = filtered_map_filename @ ''.bz2''
      in [fetch_chunk (fetch_fastq_ok ev) fastq_chunk_filename,
          getsize fastq_chunk_filename,
          fetch_chunk (fetch_fasta_ok ev) fasta_chunk_filename,
          getsize fasta_chunk_filename,
          download_file (''gem/'' @ gem_index_filename) gem_index_filename,
          getsize gem_index_filename,
          run_tool [''/function/bin/map_index_and_filter_map_file_cmd_awsruntime.sh'',
                    gem_index_filename, fastq_chunk_filename, ''not-used'', base_name p, ''s3'',
                    ''single-end'']
                   (tool_outputs ev),
          move (base_name p @ ''_map.index.txt'') map_index_filename,
          move (base_name p @ ''_filt_wline_no.map'') filtered_map_filename,
          zip_write zipped_map_index_filename map_index_filename,
          zip_write zipped_filtered_map_filename filtered_map_filename,
          upload_file zipped_map_index_filename
            (map_index_key p run_id fasta_chunk_id fastq_chunk_id),
          getsize zipped_map_index_filename,
          upload_file zipped_filtered_map_filename
            (filtered_map_key p run_id fasta_chunk_id fastq_chunk_id),
          getsize zipped_filtered_map_filename])"

text \<open>
  The whole function. The \<open>finally\<close> clause of line 230 only prints; it changes nothing.
\<close>

definition align_mapper ::
  "params \<Rightarrow> string \<Rightarrow> int \<Rightarrow> chunk \<Rightarrow> int \<Rightarrow> chunk \<Rightarrow> env \<Rightarrow> world \<Rightarrow> (py_error + align_result) \<times> world" where
  "align_mapper p run_id fasta_chunk_id fasta_chunk fastq_chunk_id fastq_chunk ev w =
     (let k1 = map_index_key p run_id fasta_chunk_id fastq_chunk_id;
          k2 = filtered_map_key p run_id fasta_chunk_id fastq_chunk_id;
          result = (fastq_chunk_id, fasta_chunk_id, k1, k2)
      in case run_steps [head_object k1, head_object k2] w of
           (None, w1) \<Rightarrow> (Inr result, w1)
         | (Some StorageNoSuchKeyError, w1) \<Rightarrow>
             (let tmp_dir = mkdtemp_dir ev;
                  w2 = mkdtemp tmp_dir w1;
                  pwd = cwd w2;
                  w3 = chdir tmp_dir w2
              in case try_finally
                        (run_steps (align_steps p run_id fasta_chunk_id fasta_chunk
                                      fastq_chunk_id fastq_chunk ev))
                        (always (\<lambda>w. w))
                        w3 of
                   (None, w4) \<Rightarrow> (Inr result, w4)
                 | (Some e, w4) \<Rightarrow> (Inl e, w4))
         | (Some e, w1) \<Rightarrow> (Inl e, w1))"

subsection \<open>What an invocation did\<close>


fun uploaded_keys :: "event list \<Rightarrow> string list" where
  "uploaded_keys [] = []"
| "uploaded_keys (UploadFile name k # es) = k # uploaded_keys es"
| "uploaded_keys (e # es) = uploaded_keys es"

text \<open>The commands of the external tools it ran.\<close>

fun tool_runs :: "event list \<Rightarrow> string list list" where
  "tool_runs [] = []"
| "tool_runs (Run cmd # es) = cmd # tool_runs es"
| "tool_runs (e # es) = tool_runs es"


text \<open>The path a file name denotes when the working directory is \<open>c\<close>.\<close>

definition resolve_in :: "string \<Rightarrow> string \<Rightarrow> string" where
  "resolve_in c n = join_component c n"

subsection \<open>An invocation to run the functions on\<close>

text \<open>
  Parameters, answers of the surroundings and a world for concrete runs: the store holds
  the gem index of fasta chunk 3, the tool leaves its two output files.
\<close>

definition example_params :: params where
  "example_params = \<lparr>tmp_prefix = ''tmp'', sra_accession = ''SRR000000'', base_name = ''SRR000000''\<rparr>"

definition example_env :: env where
  "example_env =
     \<lparr>mkdtemp_dir = ''/tmp/tmpab12'', fetch_fastq_ok = True, fetch_fasta_ok = True, cpu_count = 4,
      tool_returncode = 0,
      tool_outputs = [''SRR000000_map.index.txt'', ''SRR000000_filt_wline_no.map'']\<rparr>"

definition example_world :: world where
  "example_world = \<lparr>objects = [''gem/3.gem''], cwd = ''/home/worker'', local_paths = [], trace = []\<rparr>"


section \<open>Properties of the Partition Balancer\<close>

subsection \<open>The function returns on every non-empty tuple of sources\<close>

lemma count_source_index:
  "count_source (d, ix) ns = (d', ix') \<Longrightarrow> (d \<noteq> [] \<longrightarrow> ix \<noteq> None) \<Longrightarrow> d' \<noteq> [] \<longrightarrow> ix' \<noteq> None"
proof (induction ns arbitrary: d ix)
  case Nil
  then show ?case by simp
next
  case (Cons n ns)
  have "count_source (count_index d n, Some n) ns = (d', ix')"
    using Cons.prems(1) by simp
  then show ?case by (rule Cons.IH) simp
qed

lemma count_loop_index:
  "count_loop srcs = (cs, index0) \<Longrightarrow> cs \<noteq> [] \<Longrightarrow> index0 \<noteq> None"
proof -
  have "foldl (\<lambda>st src. count_source st (snd src)) (d, ix) srcs = (cs, index0)
        \<Longrightarrow> (d \<noteq> [] \<longrightarrow> ix \<noteq> None) \<Longrightarrow> cs \<noteq> [] \<longrightarrow> index0 \<noteq> None" for d ix
  proof (induction srcs arbitrary: d ix)
    case Nil
    then show ?case by simp
  next
    case (Cons src srcs)
    obtain d1 ix1 where step: "count_source (d, ix) (snd src) = (d1, ix1)"
      by (cases "count_source (d, ix) (snd src)")
    have "d1 \<noteq> [] \<longrightarrow> ix1 \<noteq> None"
      using step Cons.prems(2) by (rule count_source_index)
    moreover have "foldl (\<lambda>st src. count_source st (snd src)) (d1, ix1) srcs = (cs, index0)"
      using Cons.prems(1) step by simp
    ultimately show ?case using Cons.IH by blast
  qed
  then show "count_loop srcs = (cs, index0) \<Longrightarrow> cs \<noteq> [] \<Longrightarrow> index0 \<noteq> None"
    unfolding count_loop_def by blast
qed

lemma distribute_loop_total:
  "index s \<noteq> None \<Longrightarrow> \<exists>s'. distribute_loop M cs s = Inr s' \<and> index s' \<noteq> None
       \<and> (cs \<noteq> [] \<longrightarrow> key s' = Some (PyInt (fst (last cs))))"
proof (induction cs arbitrary: s)
  case Nil
  then show ?case by simp
next
  case (Cons kc rest)
  obtain k c where kc: "kc = (k, c)" by (cases kc)
  obtain i where i: "index s = Some i" using Cons.prems by auto
  let ?s1 = "if indexes s + c < M
             then s\<lparr>key := Some (PyInt k), indexes := indexes s + c, index := Some k\<rparr>
             else s\<lparr>key := Some (PyInt k), indexes := 0,
                    workers_data := workers_data s @ [PyInt i]\<rparr>"
  have step: "distribute_loop M (kc # rest) s = distribute_loop M rest ?s1"
    using kc i by simp
  have "index ?s1 \<noteq> None" using i by simp
  from Cons.IH [OF this] obtain s' where
    s': "distribute_loop M rest ?s1 = Inr s'" "index s' \<noteq> None"
      "rest \<noteq> [] \<longrightarrow> key s' = Some (PyInt (fst (last rest)))"
    by blast
  have "key s' = Some (PyInt (fst (last (kc # rest))))"
  proof (cases "rest = []")
    case True
    then have "s' = ?s1" using s'(1) by simp
    then show ?thesis using True kc by simp
  next
    case False
    then show ?thesis using s'(3) by simp
  qed
  then show ?case using step s'(1,2) by simp
qed

lemma distribute_indexes_budget_returns:
  assumes "srcs \<noteq> []"
  shows "\<exists>ws. distribute_indexes_budget M srcs = Inr ws"
proof -
  obtain cs index0 where cl: "count_loop srcs = (cs, index0)"
    by (cases "count_loop srcs")
  obtain src rest where srcs: "srcs = src # rest" using assms by (cases srcs) auto
  let ?key0 = "Some (PyStr (fst (last srcs)))"
  let ?s0 = "\<lparr>workers_data = [], indexes = 0, index = index0, key = ?key0\<rparr>"
  have "\<exists>s' k. distribute_loop M cs ?s0 = Inr s' \<and> key s' = Some k"
  proof (cases "cs = []")
    case True
    then show ?thesis by simp
  next
    case False
    then have "index ?s0 \<noteq> None" using count_loop_index [OF cl] by simp
    from distribute_loop_total [OF this, of M cs] False show ?thesis by auto
  qed
  then show ?thesis
    using cl srcs by (auto simp: distribute_indexes_budget_def distribute_counts_def)
qed

subsection \<open>The examples\<close>

lemma example_counts:
  "count_loop [example_source] = ([(1, 5), (2, 5), (3, 5), (4, 5), (5, 90)], Some 5)"
  by code_simp

text \<open>
  C2. The example of the spec: the key counts 1:5, 2:5, 3:5, 4:5, 5:90 with a budget of 10.
  The comparison is strict (\<open>indexes + count < MAX_INDEXES\<close>), so keys 1 and 2 together
  (count 10) do not fit one range: the first boundary is key 1, not key 2. The last
  boundary is key 5, the last key walked. The boundaries are not \<open>[2, 5]\<close>.
\<close>

theorem example_first_boundary_1_last_5:
  "\<exists>mid. distribute_indexes_budget 10 [example_source] = Inr (PyInt 1 # mid @ [PyInt 5])"
  by (rule exI [of _ "[PyInt 3, PyInt 3]"])
    (simp add: distribute_indexes_budget_def example_counts distribute_counts_def)

theorem example_not_2_5:
  "distribute_indexes_budget 10 [example_source] \<noteq> Inr [PyInt 2, PyInt 5]"
  by (simp add: distribute_indexes_budget_def example_counts distribute_counts_def)

text \<open>
  C4. The key that closes a range is not counted: the accumulator restarts at 0, although
  the key itself belongs to the next range. With the keys 1, 2, 3 holding 10000000,
  10000001 and 10000000 records the boundaries are 1 and 3, and the range from 2 to 3
  holds two keys and 20000001 records, more than \<open>MAX_INDEXES\<close>. The same happens with
  5, 6 and 5 records and a budget of 10.
\<close>

theorem range_over_budget:
  "distribute_counts MAX_INDEXES (Some (PyStr ''a.mpileup'')) (Some 3)
       [(1, 10000000), (2, 10000001), (3, 10000000)]
     = Inr [PyInt 1, PyInt 3]
   \<and> partition_ranges [(1, 10000000), (2, 10000001), (3, 10000000)] [1, 3] = [(1, 1), (2, 3)]
   \<and> range_count [(1, 10000000), (2, 10000001), (3, 10000000)] (2, 3) = 20000001
   \<and> MAX_INDEXES < 20000001
   \<and> distribute_indexes_budget 10 [(''a.mpileup'', [1, 1, 1, 1, 1, 2, 2, 2, 2, 2, 2, 3, 3, 3, 3, 3])]
     = Inr [PyInt 1, PyInt 3]
   \<and> range_count [(1, 5), (2, 6), (3, 5)] (2, 3) = 11"
  by (simp add: distribute_counts_def MAX_INDEXES_def partition_ranges_def domain_min_def
      range_count_def in_range_def distribute_indexes_budget_def count_loop_def)

text \<open>
  C5. When the count of the very first key reaches the budget, the loop appends \<open>index\<close>
  before the walk has assigned it. The variable then still holds the last integer the
  counting loop read. With 20000000 records of key 1 followed by one record of key 2 and
  one of key 3 the boundaries are 3 and 3: key 1 is not in a range of its own, the first
  range runs from 1 to 3 and holds all 20000002 records. The same happens with 3, 1 and
  1 records and a budget of 3.
\<close>

theorem first_key_over_budget_stale_index:
  "distribute_counts MAX_INDEXES (Some (PyStr ''a.mpileup'')) (Some 3)
       [(1, 20000000), (2, 1), (3, 1)]
     = Inr [PyInt 3, PyInt 3]
   \<and> partition_ranges [(1, 20000000), (2, 1), (3, 1)] [3, 3] = [(1, 3), (4, 3)]
   \<and> range_count [(1, 20000000), (2, 1), (3, 1)] (1, 3) = 20000002
   \<and> count_loop [(''a.mpileup'', [1, 1, 1, 2, 3])] = ([(1, 3), (2, 1), (3, 1)], Some 3)
   \<and> distribute_indexes_budget 3 [(''a.mpileup'', [1, 1, 1, 2, 3])] = Inr [PyInt 3, PyInt 3]"
  by (simp add: distribute_counts_def MAX_INDEXES_def partition_ranges_def domain_min_def
      range_count_def in_range_def distribute_indexes_budget_def count_loop_def)

text \<open>
  C6. When no source yields a record the dict of counts is empty, the loop does not run,
  and the final \<open>workers_data.append(key)\<close> appends the value the first loop left in
  \<open>key\<close>: the last source key. The result is one boundary, a string, not the empty list.
\<close>

theorem empty_domain_spurious_boundary:
  "count_indexes [(''a.mpileup'', [])] = []
   \<and> distribute_indexes [(''a.mpileup'', [])] = Inr [PyStr ''a.mpileup'']"
  by (simp add: distribute_indexes_def distribute_indexes_budget_def distribute_counts_def
      count_indexes_def count_loop_def)

section \<open>Coverage of the key domain by the ranges\<close>

lemma ranges_from_starts:
  "sorted (b # bs) \<Longrightarrow> \<forall>r\<in>set (ranges_from (b + 1) bs). b < fst r"
proof (induction bs arbitrary: b)
  case Nil
  then show ?case by simp
next
  case (Cons b' bs)
  have "\<forall>r\<in>set (ranges_from (b' + 1) bs). b' < fst r"
    using Cons.IH [of b'] Cons.prems by simp
  moreover have "b \<le> b'" using Cons.prems by simp
  ultimately show ?case by auto
qed

lemma covering_below:
  assumes "sorted (b # bs)" and "k \<le> b"
  shows "covering (ranges_from (b + 1) bs) k = 0"
proof -
  have "\<forall>r\<in>set (ranges_from (b + 1) bs). \<not> in_range r k"
    using ranges_from_starts [OF assms(1)] assms(2) by (auto simp: in_range_def)
  then show ?thesis by (simp add: covering_def)
qed

lemma covering_le_1:
  "sorted bs \<Longrightarrow> covering (ranges_from lo bs) k \<le> 1"
proof (induction bs arbitrary: lo)
  case Nil
  then show ?case by (simp add: covering_def)
next
  case (Cons b bs)
  show ?case
  proof (cases "k \<le> b")
    case True
    then have "covering (ranges_from (b + 1) bs) k = 0"
      using Cons.prems by (intro covering_below)
    then show ?thesis by (simp add: covering_def)
  next
    case False
    then have "\<not> in_range (lo, b) k" by (simp add: in_range_def)
    moreover have "covering (ranges_from (b + 1) bs) k \<le> 1"
      using Cons.IH Cons.prems by simp
    ultimately show ?thesis by (simp add: covering_def)
  qed
qed

lemma covering_eq_1:
  "sorted bs \<Longrightarrow> bs \<noteq> [] \<Longrightarrow> lo \<le> k \<Longrightarrow> k \<le> last bs \<Longrightarrow> covering (ranges_from lo bs) k = 1"
proof (induction bs arbitrary: lo)
  case Nil
  then show ?case by simp
next
  case (Cons b bs)
  show ?case
  proof (cases "k \<le> b")
    case True
    then have "covering (ranges_from (b + 1) bs) k = 0"
      using Cons.prems(1) by (intro covering_below)
    moreover have "in_range (lo, b) k"
      using True Cons.prems(3) by (simp add: in_range_def)
    ultimately show ?thesis by (simp add: covering_def)
  next
    case False
    then have out: "\<not> in_range (lo, b) k" by (simp add: in_range_def)
    have "bs \<noteq> []" using False Cons.prems(4) by auto
    moreover have "k \<le> last bs" using Cons.prems(4) \<open>bs \<noteq> []\<close> by simp
    ultimately have "covering (ranges_from (b + 1) bs) k = 1"
      using Cons.IH [of "b + 1"] Cons.prems(1) False by simp
    then show ?thesis using out by (simp add: covering_def)
  qed
qed

lemma range_count_indicator:
  "range_count cs r = sum_list (map (\<lambda>kc. if in_range r (fst kc) then snd kc else 0) cs)"
  by (simp add: range_count_def sum_list_map_filter')

lemma sum_range_counts:
  "sum_list (map (range_count cs) rs) = sum_list (map (\<lambda>kc. snd kc * int (covering rs (fst kc))) cs)"
proof (induction rs)
  case Nil
  then show ?case by (simp add: covering_def)
next
  case (Cons r rs)
  have "sum_list (map (\<lambda>kc. snd kc * int (covering (r # rs) (fst kc))) cs)
      = sum_list (map (\<lambda>kc. (if in_range r (fst kc) then snd kc else 0)
                              + snd kc * int (covering rs (fst kc))) cs)"
    by (intro arg_cong [where f = sum_list] map_cong refl) (simp add: covering_def algebra_simps)
  also have "\<dots> = range_count cs r + sum_list (map (\<lambda>kc. snd kc * int (covering rs (fst kc))) cs)"
    by (simp add: sum_list_addf range_count_indicator)
  finally show ?case using Cons.IH by simp
qed

lemma covered_once_total:
  assumes "\<forall>k\<in>set (map fst cs). covering rs k = 1"
  shows "sum_list (map (range_count cs) rs) = total_count cs"
proof -
  have "sum_list (map (\<lambda>kc. snd kc * int (covering rs (fst kc))) cs) = sum_list (map snd cs)"
    using assms by (intro arg_cong [where f = sum_list] map_cong refl) simp
  then show ?thesis by (simp add: sum_range_counts total_count_def)
qed

lemma distribute_loop_sorted:
  assumes "sorted (map fst cs)" and "loop_inv s wd cs" and "distribute_loop M cs s = Inr s'"
  shows "\<exists>wd'. workers_data s' = map PyInt wd' \<and> sorted wd'
           \<and> (cs \<noteq> [] \<longrightarrow> key s' = Some (PyInt (fst (last cs))) \<and> (\<forall>x\<in>set wd'. x \<le> fst (last cs)))"
  using assms
proof (induction cs arbitrary: s wd)
  case Nil
  then show ?case by (auto simp: loop_inv_def)
next
  case (Cons kc rest)
  obtain k c where kc: "kc = (k, c)" by (cases kc)
  have srt: "sorted (map fst rest)" and kle: "\<forall>k'\<in>set (map fst rest). k \<le> k'"
    using Cons.prems(1) kc by auto
  show ?case
  proof (cases "indexes s + c < M")
    case True
    let ?s1 = "s\<lparr>key := Some (PyInt k), indexes := indexes s + c, index := Some k\<rparr>"
    have run: "distribute_loop M rest ?s1 = Inr s'"
      using Cons.prems(3) kc True by simp
    have inv: "loop_inv ?s1 wd rest"
      using Cons.prems(2) kle kc by (auto simp: loop_inv_def)
    from Cons.IH [OF srt inv run] obtain wd' where
      wd': "workers_data s' = map PyInt wd'" "sorted wd'"
        "rest \<noteq> [] \<longrightarrow> key s' = Some (PyInt (fst (last rest))) \<and> (\<forall>x\<in>set wd'. x \<le> fst (last rest))"
      by blast
    show ?thesis
    proof (cases "rest = []")
      case True
      then have "s' = ?s1" using run by simp
      then show ?thesis using Cons.prems(2) kc True by (auto simp: loop_inv_def)
    next
      case False
      then show ?thesis using wd' by auto
    qed
  next
    case False
    then obtain i where i: "index s = Some i"
      using Cons.prems(3) kc by (cases "index s") auto
    let ?s1 = "s\<lparr>key := Some (PyInt k), indexes := 0, workers_data := workers_data s @ [PyInt i]\<rparr>"
    have run: "distribute_loop M rest ?s1 = Inr s'"
      using Cons.prems(3) kc False i by simp
    have inv: "loop_inv ?s1 (wd @ [i]) rest"
      using Cons.prems(2) i kc by (auto simp: loop_inv_def sorted_append)
    from Cons.IH [OF srt inv run] obtain wd' where
      wd': "workers_data s' = map PyInt wd'" "sorted wd'"
        "rest \<noteq> [] \<longrightarrow> key s' = Some (PyInt (fst (last rest))) \<and> (\<forall>x\<in>set wd'. x \<le> fst (last rest))"
      by blast
    show ?thesis
    proof (cases "rest = []")
      case True
      then have "s' = ?s1" using run by simp
      then show ?thesis using Cons.prems(2) i kc True
        by (intro exI [of _ "wd @ [i]"]) (auto simp: loop_inv_def sorted_append)
    next
      case False
      then show ?thesis using wd' by auto
    qed
  qed
qed

lemma distribute_counts_sorted:
  assumes "sorted (map fst cs)" and "cs \<noteq> []" and "snd (hd cs) < M"
  shows "\<exists>bs. distribute_counts M key0 index0 cs = Inr (map PyInt bs)
           \<and> sorted bs \<and> bs \<noteq> [] \<and> last bs = fst (last cs)"
proof -
  obtain k c rest where cs: "cs = (k, c) # rest" using assms(2) by (cases cs) auto
  let ?s0 = "\<lparr>workers_data = [], indexes = 0, index = index0, key = key0\<rparr>"
  let ?s1 = "\<lparr>workers_data = [], indexes = c, index = Some k, key = Some (PyInt k)\<rparr>"
  have first: "distribute_loop M cs ?s0 = distribute_loop M rest ?s1"
    using assms(3) cs by simp
  have srt: "sorted (map fst rest)" and kle: "\<forall>k'\<in>set (map fst rest). k \<le> k'"
    using assms(1) cs by auto
  have "index ?s1 \<noteq> None" by simp
  from distribute_loop_total [OF this, of M rest] obtain s' where
    run: "distribute_loop M rest ?s1 = Inr s'" by blast
  have inv: "loop_inv ?s1 [] rest" using kle by (simp add: loop_inv_def)
  from distribute_loop_sorted [OF srt inv run] obtain wd' where
    wd': "workers_data s' = map PyInt wd'" "sorted wd'"
      "rest \<noteq> [] \<longrightarrow> key s' = Some (PyInt (fst (last rest))) \<and> (\<forall>x\<in>set wd'. x \<le> fst (last rest))"
    by blast
  have fin: "key s' = Some (PyInt (fst (last cs))) \<and> (\<forall>x\<in>set wd'. x \<le> fst (last cs))"
  proof (cases "rest = []")
    case True
    then have "s' = ?s1" using run by simp
    then show ?thesis using wd'(1) True cs by simp
  next
    case False
    then show ?thesis using wd'(3) cs by simp
  qed
  have "distribute_counts M key0 index0 cs = Inr (map PyInt (wd' @ [fst (last cs)]))"
    using first run wd'(1) fin by (simp add: distribute_counts_def)
  moreover have "sorted (wd' @ [fst (last cs)])"
    using wd'(2) fin by (simp add: sorted_append)
  ultimately show ?thesis by (intro exI [of _ "wd' @ [fst (last cs)]"]) simp
qed

lemma sorted_le_last:
  "sorted xs \<Longrightarrow> x \<in> set xs \<Longrightarrow> x \<le> last (xs :: int list)"
  by (induction xs) auto

lemma sorted_domain_bounds:
  assumes "sorted (map fst cs)" and "k \<in> set (map fst cs)"
  shows "domain_min cs \<le> k \<and> k \<le> fst (last cs)"
proof -
  have ne: "cs \<noteq> []" using assms(2) by auto
  have "domain_min cs \<le> k"
    using assms(2) by (simp add: domain_min_def)
  moreover have "k \<le> last (map fst cs)"
    using assms by (rule sorted_le_last)
  ultimately show ?thesis using ne by (simp add: last_map)
qed

text \<open>
  What the walk does achieve. When the keys were inserted in ascending order, the dict is
  not empty and the count of its first key is below the budget, the function returns
  boundaries that are ascending integers and end at the largest key. With the ranges read
  as the spec reads them (from the domain minimum to the first boundary, then from each
  boundary + 1 to the next), no integer lies in two ranges, every observed key lies in
  exactly one, and the record counts of the ranges add up to the total count of the input.
  Nothing in the function makes the insertion order ascending.
\<close>

theorem distribute_counts_coverage:
  assumes "sorted (map fst cs)" and "cs \<noteq> []" and "snd (hd cs) < M"
  shows "\<exists>bs. distribute_counts M key0 index0 cs = Inr (map PyInt bs)
           \<and> sorted bs \<and> last bs = fst (last cs)
           \<and> (\<forall>k. covering (partition_ranges cs bs) k \<le> 1)
           \<and> (\<forall>k\<in>set (map fst cs). covering (partition_ranges cs bs) k = 1)
           \<and> sum_list (map (range_count cs) (partition_ranges cs bs)) = total_count cs"
proof -
  from distribute_counts_sorted [OF assms] obtain bs where
    bs: "distribute_counts M key0 index0 cs = Inr (map PyInt bs)" "sorted bs" "bs \<noteq> []"
      "last bs = fst (last cs)"
    by blast
  have once: "\<forall>k\<in>set (map fst cs). covering (partition_ranges cs bs) k = 1"
  proof
    fix k assume "k \<in> set (map fst cs)"
    then have "domain_min cs \<le> k" "k \<le> last bs"
      using sorted_domain_bounds [OF assms(1)] bs(4) by auto
    then show "covering (partition_ranges cs bs) k = 1"
      unfolding partition_ranges_def using bs(2,3) by (intro covering_eq_1)
  qed
  have most: "\<forall>k. covering (partition_ranges cs bs) k \<le> 1"
    unfolding partition_ranges_def using bs(2) by (intro allI covering_le_1)
  have "sum_list (map (range_count cs) (partition_ranges cs bs)) = total_count cs"
    using once by (rule covered_once_total)
  then show ?thesis using bs once most by blast
qed

text \<open>The example of the spec, walked with a budget of 10: four ranges, 110 records.\<close>

theorem distribute_counts_coverage_witness:
  "sorted (map fst ([(1, 5), (2, 5), (3, 5), (4, 5), (5, 90)] :: (int \<times> int) list))
   \<and> ([(1, 5), (2, 5), (3, 5), (4, 5), (5, 90)] :: (int \<times> int) list) \<noteq> []
   \<and> snd (hd ([(1, 5), (2, 5), (3, 5), (4, 5), (5, 90)] :: (int \<times> int) list)) < 10
   \<and> distribute_counts 10 (Some (PyStr ''a.mpileup'')) (Some 5)
         [(1, 5), (2, 5), (3, 5), (4, 5), (5, 90)]
       = Inr [PyInt 1, PyInt 3, PyInt 3, PyInt 5]
   \<and> partition_ranges [(1, 5), (2, 5), (3, 5), (4, 5), (5, 90)] [1, 3, 3, 5]
       = [(1, 1), (2, 3), (4, 3), (4, 5)]
   \<and> sum_list (map (range_count [(1, 5), (2, 5), (3, 5), (4, 5), (5, 90)])
        (partition_ranges [(1, 5), (2, 5), (3, 5), (4, 5), (5, 90)] [1, 3, 3, 5])) = 110
   \<and> total_count [(1, 5), (2, 5), (3, 5), (4, 5), (5, 90)] = 110"
proof -
  let ?cs = "[(1, 5), (2, 5), (3, 5), (4, 5), (5, 90)] :: (int \<times> int) list"
  have h1: "sorted (map fst ?cs)" by simp
  have h2: "?cs \<noteq> []" by simp
  have h3: "snd (hd ?cs) < 10" by simp
  have run: "distribute_counts 10 (Some (PyStr ''a.mpileup'')) (Some 5) ?cs
      = Inr [PyInt 1, PyInt 3, PyInt 3, PyInt 5]"
    by (simp add: distribute_counts_def)
  from distribute_counts_coverage [OF h1 h2 h3, of "Some (PyStr ''a.mpileup'')" "Some 5"]
  obtain bs where
    bs: "distribute_counts 10 (Some (PyStr ''a.mpileup'')) (Some 5) ?cs = Inr (map PyInt bs)"
      "sum_list (map (range_count ?cs) (partition_ranges ?cs bs)) = total_count ?cs"
    by (elim exE conjE) (rule that, assumption+)
  from bs(1) run have "bs = [1, 3, 3, 5]" by (auto simp: Cons_eq_map_conv)
  with bs(2) have "sum_list (map (range_count ?cs) (partition_ranges ?cs [1, 3, 3, 5])) = total_count ?cs"
    by simp
  moreover have "total_count ?cs = 110" by (simp add: total_count_def)
  moreover have "partition_ranges ?cs [1, 3, 3, 5] = [(1, 1), (2, 3), (4, 3), (4, 5)]"
    by (simp add: partition_ranges_def domain_min_def)
  ultimately show ?thesis using h1 h2 h3 run by simp
qed

text \<open>
  Two sources, the first with a record of key 5 and the second with a record of key 1: the
  dict holds key 5 before key 1, the walk ends at key 1, and the only range, from 1 to 1,
  leaves the record of key 5 out.
\<close>

theorem unsorted_walk_drops_key:
  "count_indexes [(''a'', [5]), (''b'', [1])] = [(5, 1), (1, 1)]
   \<and> distribute_indexes [(''a'', [5]), (''b'', [1])] = Inr [PyInt 1]
   \<and> partition_ranges [(5, 1), (1, 1)] [1] = [(1, 1)]
   \<and> covering (partition_ranges [(5, 1), (1, 1)] [1]) 5 = 0
   \<and> sum_list (map (range_count [(5, 1), (1, 1)]) (partition_ranges [(5, 1), (1, 1)] [1])) = 1
   \<and> total_count [(5, 1), (1, 1)] = 2"
  by (simp add: count_indexes_def count_loop_def distribute_indexes_def
      distribute_indexes_budget_def distribute_counts_def MAX_INDEXES_def partition_ranges_def
      domain_min_def covering_def in_range_def range_count_def total_count_def)

text \<open>
  C3. The counts are accumulated over all source files and the dict is walked in insertion
  order, never sorted. Two files that are each in ascending order, the first with records
  of the keys 5 and 7 and the second with records of the keys 1 and 5: the dict holds the
  keys in the order 5, 7, 1, the walk ends at key 1, and the only boundary is 1. The only
  range, from 1 to 1, holds one of the four records; the keys 5 and 7 lie in no range.
\<close>

theorem overlapping_sources_drop_records:
  "count_loop [(''a.mpileup'', [5, 7]), (''b.mpileup'', [1, 5])] = ([(5, 2), (7, 1), (1, 1)], Some 5)
   \<and> distribute_indexes [(''a.mpileup'', [5, 7]), (''b.mpileup'', [1, 5])] = Inr [PyInt 1]
   \<and> partition_ranges [(5, 2), (7, 1), (1, 1)] [1] = [(1, 1)]
   \<and> covering (partition_ranges [(5, 2), (7, 1), (1, 1)] [1]) 5 = 0
   \<and> covering (partition_ranges [(5, 2), (7, 1), (1, 1)] [1]) 7 = 0
   \<and> sum_list (map (range_count [(5, 2), (7, 1), (1, 1)])
         (partition_ranges [(5, 2), (7, 1), (1, 1)] [1])) = 1
   \<and> total_count [(5, 2), (7, 1), (1, 1)] = 4"
  by (simp add: count_loop_def distribute_indexes_def distribute_indexes_budget_def
      distribute_counts_def MAX_INDEXES_def partition_ranges_def domain_min_def covering_def
      in_range_def range_count_def total_count_def)

section \<open>Properties of the Multipart Upload Coordinator\<close>

lemma collect_parts_takeWhile:
  "collect_parts m ps (mp, r) =
     (mp @ map entry (takeWhile (\<lambda>p. mpu_id p = m) ps),
      r + length (takeWhile (\<lambda>p. mpu_id p = m) ps))"
  by (induction ps arbitrary: mp r) (auto simp: entry_def)

lemma takeWhile_group:
  assumes "\<forall>p\<in>set g. mpu_id p = m" and "\<forall>p\<in>set rest. mpu_id p \<noteq> m"
  shows "takeWhile (\<lambda>p. mpu_id p = m) (g @ rest) = g"
proof -
  have "takeWhile (\<lambda>p. mpu_id p = m) rest = []"
    using assms(2) by (cases rest) auto
  with assms(1) show ?thesis by simp
qed

lemma complete_loop_groups:
  assumes "distinct (map snd kms)"
    and "\<forall>m. \<forall>p\<in>set (g m). mpu_id p = m"
  shows "complete_loop kms (concat (map g (map snd kms)))
       = map (\<lambda>km. \<lparr>Key = fst km, UploadId = snd km, Parts = map entry (g (snd km))\<rparr>) kms"
  using assms(1)
proof (induction kms)
  case Nil
  then show ?case by simp
next
  case (Cons km kms)
  obtain k m where km: "km = (k, m)" by (cases km)
  let ?rest = "concat (map g (map snd kms))"
  have other: "\<forall>p\<in>set ?rest. mpu_id p \<noteq> m"
    using Cons.prems assms(2) km by auto
  have tw: "takeWhile (\<lambda>p. mpu_id p = m) (g m @ ?rest) = g m"
    using assms(2) other by (intro takeWhile_group) auto
  show ?case
    using Cons km tw by (simp add: collect_parts_takeWhile)
qed

lemma finish_takeWhile:
  "finish k m parts
     = \<lparr>Key = k, UploadId = m, Parts = map entry (takeWhile (\<lambda>p. mpu_id p = m) parts)\<rparr>"
  by (simp add: finish_def collect_parts_takeWhile)

text \<open>
  C1, as the code has it. The scan takes the leading run of parts that carry the upload
  id and stops at the first other part, and it never sorts. When the list of collected
  parts is grouped (the parts of the first upload, then those of the second, ...; the ids
  distinct, one key per id), \<open>complete_multipart\<close> completes every upload with exactly the
  parts that carry its id, in their order of arrival, and \<open>finish\<close> does so for the first
  upload; the completion list is ascending exactly when the parts of the upload arrived in
  ascending part-number order.
\<close>

theorem complete_multipart_grouped:
  assumes "distinct mpu_ids" and "length keys = length mpu_ids" and "grouped_by mpu_ids parts"
  shows "complete_multipart keys mpu_ids parts
           = map (\<lambda>km. \<lparr>Key = fst km, UploadId = snd km,
                          Parts = map entry (parts_of (snd km) parts)\<rparr>) (zip keys mpu_ids)
       \<and> (\<forall>c \<in> set (complete_multipart keys mpu_ids parts).
             sorted (map fst (Parts c)) = sorted (map PartNumber (parts_of (UploadId c) parts)))
       \<and> (\<forall>k m others. mpu_ids = m # others \<longrightarrow>
             finish k m parts = \<lparr>Key = k, UploadId = m, Parts = map entry (parts_of m parts)\<rparr>)"
proof -
  let ?g = "\<lambda>m. parts_of m parts"
  let ?kms = "zip keys mpu_ids"
  have ids: "map snd ?kms = mpu_ids"
    using assms(2) by simp
  have own: "\<forall>m. \<forall>p\<in>set (?g m). mpu_id p = m"
    by (simp add: parts_of_def)
  have "complete_loop ?kms (concat (map ?g (map snd ?kms)))
          = map (\<lambda>km. \<lparr>Key = fst km, UploadId = snd km, Parts = map entry (?g (snd km))\<rparr>) ?kms"
    using assms(1) own by (intro complete_loop_groups) (simp_all add: ids)
  moreover have "concat (map ?g (map snd ?kms)) = parts"
    using assms(3) by (simp add: ids grouped_by_def)
  ultimately have calls: "complete_multipart keys mpu_ids parts
      = map (\<lambda>km. \<lparr>Key = fst km, UploadId = snd km, Parts = map entry (?g (snd km))\<rparr>) ?kms"
    by (simp add: complete_multipart_def)
  have fst_entry: "fst \<circ> entry = PartNumber"
    by (rule ext) (simp add: entry_def)
  have order: "\<forall>c \<in> set (complete_multipart keys mpu_ids parts).
      sorted (map fst (Parts c)) = sorted (map PartNumber (parts_of (UploadId c) parts))"
    unfolding calls by (auto simp: fst_entry)
  have first: "finish k m parts = \<lparr>Key = k, UploadId = m, Parts = map entry (parts_of m parts)\<rparr>"
    if "mpu_ids = m # others" for k m others
  proof -
    let ?rest = "concat (map ?g others)"
    have split: "parts = ?g m @ ?rest"
      using assms(3) that by (simp add: grouped_by_def)
    have "\<forall>p\<in>set ?rest. mpu_id p \<noteq> m"
      using assms(1) that by (auto simp: parts_of_def)
    then have "takeWhile (\<lambda>p. mpu_id p = m) (?g m @ ?rest) = ?g m"
      using own by (intro takeWhile_group) auto
    then have "takeWhile (\<lambda>p. mpu_id p = m) parts = ?g m"
      using split by simp
    then show ?thesis by (simp add: finish_takeWhile)
  qed
  show ?thesis using calls order first by blast
qed

text \<open>
  A grouped list of two uploads: both are completed with their own parts. The second
  upload arrived with part 2 before part 1 and is completed in that order.
\<close>

theorem complete_multipart_grouped_witness:
  "distinct [''U1'', ''U2''] \<and> length [''k1'', ''k2''] = length [''U1'', ''U2'']
   \<and> grouped_by [''U1'', ''U2'']
        [\<lparr>PartNumber = 1, ETag = ''e11'', mpu_id = ''U1''\<rparr>,
         \<lparr>PartNumber = 2, ETag = ''e12'', mpu_id = ''U1''\<rparr>,
         \<lparr>PartNumber = 2, ETag = ''e22'', mpu_id = ''U2''\<rparr>,
         \<lparr>PartNumber = 1, ETag = ''e21'', mpu_id = ''U2''\<rparr>]
   \<and> complete_multipart [''k1'', ''k2''] [''U1'', ''U2'']
        [\<lparr>PartNumber = 1, ETag = ''e11'', mpu_id = ''U1''\<rparr>,
         \<lparr>PartNumber = 2, ETag = ''e12'', mpu_id = ''U1''\<rparr>,
         \<lparr>PartNumber = 2, ETag = ''e22'', mpu_id = ''U2''\<rparr>,
         \<lparr>PartNumber = 1, ETag = ''e21'', mpu_id = ''U2''\<rparr>]
       = [\<lparr>Key = ''k1'', UploadId = ''U1'', Parts = [(1, ''e11''), (2, ''e12'')]\<rparr>,
          \<lparr>Key = ''k2'', UploadId = ''U2'', Parts = [(2, ''e22''), (1, ''e21'')]\<rparr>]"
proof -
  let ?parts = "[\<lparr>PartNumber = 1, ETag = ''e11'', mpu_id = ''U1''\<rparr>,
         \<lparr>PartNumber = 2, ETag = ''e12'', mpu_id = ''U1''\<rparr>,
         \<lparr>PartNumber = 2, ETag = ''e22'', mpu_id = ''U2''\<rparr>,
         \<lparr>PartNumber = 1, ETag = ''e21'', mpu_id = ''U2''\<rparr>]"
  have h1: "distinct [''U1'', ''U2'']" by simp
  have h2: "length [''k1'', ''k2''] = length [''U1'', ''U2'']" by simp
  have h3: "grouped_by [''U1'', ''U2''] ?parts"
    by (simp add: grouped_by_def parts_of_def)
  show ?thesis
    using h1 h2 h3 complete_multipart_grouped [OF h1 h2 h3]
    by (simp add: parts_of_def entry_def)
qed

text \<open>
  On the interleaved example of the spec the uploads are not completed with their own
  parts: U1 is completed with part 1 only, U2 with part 1 only and U3 with no part at all,
  where the specification asks for both parts of each. And \<open>finish\<close> lists the parts in
  their order of arrival, not in ascending part-number order.
\<close>

theorem interleaved_example_misgrouped:
  "map Parts (complete_multipart [''k1'', ''k2'', ''k3''] [''U1'', ''U2'', ''U3''] interleaved_example)
     = [[(1, ''e11'')], [(1, ''e21'')], []]
   \<and> map (expected_parts interleaved_example) [''U1'', ''U2'', ''U3'']
     = [[(1, ''e11''), (2, ''e12'')], [(1, ''e21''), (2, ''e22'')], [(1, ''e31''), (2, ''e32'')]]
   \<and> Parts (finish ''k1'' ''U1''
        [\<lparr>PartNumber = 2, ETag = ''e12'', mpu_id = ''U1''\<rparr>,
         \<lparr>PartNumber = 1, ETag = ''e11'', mpu_id = ''U1''\<rparr>])
     = [(2, ''e12''), (1, ''e11'')]"
  by (simp add: complete_multipart_def finish_def interleaved_example_def expected_parts_def
      parts_of_def entry_def)

section \<open>Properties of \<open>keys_by_fasta_split\<close>\<close>

lemma py_split_not_Nil: "py_split sep s \<noteq> []"
  by (induction sep s rule: py_split.induct) (auto split: list.splits)

lemma py_split_no_sep1: "a \<notin> set s \<Longrightarrow> py_split [a] s = [s]"
  by (induction s) auto

lemma py_split_sep1_length: "2 \<le> length (py_split [a] (pre @ a # s))"
proof (induction pre)
  case Nil
  have "py_split [a] s \<noteq> []" by (rule py_split_not_Nil)
  then show ?case by (cases "py_split [a] s") auto
next
  case (Cons x pre)
  then show ?case by (cases "py_split [a] (pre @ a # s)") auto
qed

lemma py_split_sep1_last: "last (py_split [a] (pre @ a # s)) = last (py_split [a] s)"
proof (induction pre)
  case Nil
  then show ?case by (simp add: py_split_not_Nil)
next
  case (Cons x pre)
  have len: "2 \<le> length (py_split [a] (pre @ a # s))" by (rule py_split_sep1_length)
  then obtain p q ps where ps: "py_split [a] (pre @ a # s) = p # q # ps"
    by (cases "py_split [a] (pre @ a # s)"; cases "tl (py_split [a] (pre @ a # s))") auto
  show ?case using Cons.IH ps by auto
qed

lemma last_py_split_slash: "last (py_split ''/'' k) = final_segment k"
proof (cases "CHR ''/'' \<in> set k")
  case False
  then have tw: "takeWhile (\<lambda>c. c \<noteq> CHR ''/'') (rev k) = rev k"
    by (intro takeWhile_eq_all_conv [THEN iffD2]) auto
  have "final_segment k = k" by (simp only: final_segment_def tw rev_rev_ident)
  moreover have "last (py_split ''/'' k) = k" using False by (simp add: py_split_no_sep1)
  ultimately show ?thesis by simp
next
  case True
  then obtain dir seg where k: "k = dir @ CHR ''/'' # seg" and seg: "CHR ''/'' \<notin> set seg"
    by (meson split_list_last)
  have "takeWhile (\<lambda>c. c \<noteq> CHR ''/'') (rev seg @ CHR ''/'' # rev dir) = rev seg"
    using seg by (subst takeWhile_append2) auto
  then have "final_segment k = seg" by (simp add: final_segment_def k)
  moreover have "last (py_split ''/'' k) = seg"
    using seg by (simp add: k py_split_sep1_last py_split_no_sep1)
  ultimately show ?thesis by simp
qed


lemma py_split_no_sep2:
  "\<not> occurs [a, b] s \<Longrightarrow> py_split [a, b] s = [s]"
  by (induction s) auto

lemma py_split_sep2_length:
  "a \<noteq> b \<Longrightarrow> 2 \<le> length (py_split [a, b] (pre @ a # b # s))"
proof (induction pre rule: length_induct)
  case (1 pre)
  show ?case
  proof (cases pre)
    case Nil
    have "py_split [a, b] s \<noteq> []" by (rule py_split_not_Nil)
    then show ?thesis using Nil by (cases "py_split [a, b] s") auto
  next
    case (Cons x pre')
    show ?thesis
    proof (cases "take 2 (pre @ a # b # s) = [a, b]")
      case True
      then obtain pre'' where pre: "pre = a # b # pre''"
        using Cons "1.prems" by (cases pre') auto
      have "py_split [a, b] (pre'' @ a # b # s) \<noteq> []" by (rule py_split_not_Nil)
      then show ?thesis using pre by (cases "py_split [a, b] (pre'' @ a # b # s)") auto
    next
      case False
      have "2 \<le> length (py_split [a, b] (pre' @ a # b # s))"
        using "1.IH" Cons "1.prems" by simp
      then show ?thesis using False Cons
        by (cases "py_split [a, b] (pre' @ a # b # s)") auto
    qed
  qed
qed

lemma py_split_sep2_last:
  "a \<noteq> b \<Longrightarrow> last (py_split [a, b] (pre @ a # b # s)) = last (py_split [a, b] s)"
proof (induction pre rule: length_induct)
  case (1 pre)
  show ?case
  proof (cases pre)
    case Nil
    then show ?thesis by (simp add: py_split_not_Nil)
  next
    case (Cons x pre')
    show ?thesis
    proof (cases "take 2 (pre @ a # b # s) = [a, b]")
      case True
      then obtain pre'' where pre: "pre = a # b # pre''"
        using Cons "1.prems" by (cases pre') auto
      have "last (py_split [a, b] (pre'' @ a # b # s)) = last (py_split [a, b] s)"
        using "1.IH" pre "1.prems" by simp
      then show ?thesis using pre by (simp add: py_split_not_Nil)
    next
      case False
      have len: "2 \<le> length (py_split [a, b] (pre' @ a # b # s))"
        using "1.prems" by (rule py_split_sep2_length)
      then obtain p q ps where ps: "py_split [a, b] (pre' @ a # b # s) = p # q # ps"
        by (cases "py_split [a, b] (pre' @ a # b # s)";
            cases "tl (py_split [a, b] (pre' @ a # b # s))") auto
      have "last (py_split [a, b] (pre' @ a # b # s)) = last (py_split [a, b] s)"
        using "1.IH" Cons "1.prems" by simp
      then show ?thesis using False Cons ps by auto
    qed
  qed
qed

lemma split_tail_after_last_fa:
  assumes "final_segment k = pre @ ''fa'' @ c # rest" and "\<not> occurs ''fa'' (c # rest)"
  shows "split_tail k = c # rest"
proof -
  have "last (py_split ''fa'' (pre @ CHR ''f'' # CHR ''a'' # (c # rest)))
      = last (py_split ''fa'' (c # rest))"
    by (intro py_split_sep2_last) simp
  also have "\<dots> = c # rest"
  proof -
    have "py_split ''fa'' (c # rest) = [c # rest]"
      using assms(2) by (rule py_split_no_sep2)
    then show ?thesis by simp
  qed
  finally show ?thesis using assms(1) by (simp add: split_tail_def last_py_split_slash)
qed

lemma append_key_mset:
  "mset (concat (map snd (append_key d g k))) = mset (concat (map snd d)) + {#k#}"
  by (induction d g k rule: append_key.induct) auto

lemma append_key_ids:
  "set (map fst (append_key d g k)) = insert g (set (map fst d))"
  by (induction d g k rule: append_key.induct) auto

lemma append_key_distinct:
  "distinct (map fst d) \<Longrightarrow> distinct (map fst (append_key d g k))"
proof (induction d g k rule: append_key.induct)
  case (1 g k)
  then show ?case by simp
next
  case (2 g' ks d g k)
  have "set (map fst (append_key d g k)) = insert g (set (map fst d))"
    by (rule append_key_ids)
  then show ?case using 2 by auto
qed

lemma append_key_members:
  assumes "(g', ks) \<in> set (append_key d g k)" and "k' \<in> set ks"
  shows "(k' = k \<and> g' = g) \<or> (\<exists>ks0. (g', ks0) \<in> set d \<and> k' \<in> set ks0)"
  using assms by (induction d g k rule: append_key.induct) (auto split: if_splits)

lemma split_loop_groups:
  assumes "\<forall>k\<in>set keys. split_tail k \<noteq> []" and "distinct (map fst d)" and "placed d"
  shows "\<exists>d'. split_loop keys d = Inr d'
           \<and> mset (concat (map snd d')) = mset (concat (map snd d)) + mset keys
           \<and> distinct (map fst d') \<and> placed d'"
  using assms
proof (induction keys arbitrary: d)
  case Nil
  then show ?case by simp
next
  case (Cons k keys)
  from Cons.prems(1) obtain c rest where tail: "split_tail k = c # rest"
    by (cases "split_tail k") auto
  then have id: "fasta_split_of k = Inr [c]" by (simp add: fasta_split_of_def)
  let ?d1 = "append_key d [c] k"
  have d1: "distinct (map fst ?d1)" using Cons.prems(2) by (rule append_key_distinct)
  have p1: "placed ?d1"
    unfolding placed_def
  proof (intro ballI, clarify)
    fix g ks k' assume "(g, ks) \<in> set ?d1" "k' \<in> set ks"
    then have "(k' = k \<and> g = [c]) \<or> (\<exists>ks0. (g, ks0) \<in> set d \<and> k' \<in> set ks0)"
      by (rule append_key_members)
    then show "g = [hd (split_tail k')]"
      using tail Cons.prems(3) by (auto simp: placed_def)
  qed
  have "\<forall>k\<in>set keys. split_tail k \<noteq> []" using Cons.prems(1) by simp
  from Cons.IH [OF this d1 p1] obtain d' where
    "split_loop keys ?d1 = Inr d'"
    "mset (concat (map snd d')) = mset (concat (map snd ?d1)) + mset keys"
    "distinct (map fst d')" "placed d'"
    by blast
  then show ?case using id by (simp add: append_key_mset)
qed

text \<open>
  C10, as the code has it. The function raises \<open>IndexError\<close> on a key with nothing behind
  the last \<open>fa\<close> of its final path segment. On every list of keys that all have a
  character there it returns a dict whose groups together hold the input keys, each as
  often as the input does; the group ids are distinct and the id of a key's group is the
  string of the first character behind the last \<open>fa\<close> of the key's final path segment,
  whatever follows that character.
\<close>

theorem keys_by_fasta_split_groups:
  assumes "\<forall>k\<in>set keys. split_tail k \<noteq> []"
  shows "\<exists>d. keys_by_fasta_split keys = Inr d
           \<and> mset (concat (map snd d)) = mset keys
           \<and> distinct (map fst d)
           \<and> (\<forall>(g, ks)\<in>set d. \<forall>k\<in>set ks. g = [hd (split_tail k)])
           \<and> (\<forall>k pre c rest.
                 final_segment k = pre @ ''fa'' @ c # rest \<and> \<not> occurs ''fa'' (c # rest)
                 \<longrightarrow> split_tail k = c # rest)"
proof -
  have "distinct (map fst ([] :: key_dict))" and "placed []"
    by (simp_all add: placed_def)
  from split_loop_groups [OF assms this] obtain d where
    d: "split_loop keys [] = Inr d" "mset (concat (map snd d)) = mset keys"
      "distinct (map fst d)" "placed d"
    by auto
  have tail: "\<forall>k pre c rest.
      final_segment k = pre @ ''fa'' @ c # rest \<and> \<not> occurs ''fa'' (c # rest)
      \<longrightarrow> split_tail k = c # rest"
    using split_tail_after_last_fa by blast
  show ?thesis
    using d tail unfolding keys_by_fasta_split_def placed_def by blast
qed

text \<open>
  The splits 10 and 1 share the group \<open>1\<close>: only the first digit is read.
\<close>

theorem keys_by_fasta_split_groups_witness:
  "split_tail ''tmp/run/fa10.sinple'' = ''10.sinple''
   \<and> split_tail ''tmp/run/fa1.sinple'' = ''1.sinple''
   \<and> split_tail ''tmp/run/fa2.sinple'' = ''2.sinple''
   \<and> keys_by_fasta_split [''tmp/run/fa10.sinple'', ''tmp/run/fa1.sinple'', ''tmp/run/fa2.sinple'']
       = Inr [(''1'', [''tmp/run/fa10.sinple'', ''tmp/run/fa1.sinple'']),
              (''2'', [''tmp/run/fa2.sinple''])]
   \<and> mset (concat (map snd
         [(''1'', [''tmp/run/fa10.sinple'', ''tmp/run/fa1.sinple'']),
          (''2'', [''tmp/run/fa2.sinple''])]))
       = mset [''tmp/run/fa10.sinple'', ''tmp/run/fa1.sinple'', ''tmp/run/fa2.sinple'']"
proof -
  let ?keys = "[''tmp/run/fa10.sinple'', ''tmp/run/fa1.sinple'', ''tmp/run/fa2.sinple'']"
  let ?d = "[(''1'', [''tmp/run/fa10.sinple'', ''tmp/run/fa1.sinple'']),
             (''2'', [''tmp/run/fa2.sinple''])]"
  have t1: "split_tail ''tmp/run/fa10.sinple'' = ''10.sinple''"
    by (simp add: split_tail_def)
  have t2: "split_tail ''tmp/run/fa1.sinple'' = ''1.sinple''"
    by (simp add: split_tail_def)
  have t3: "split_tail ''tmp/run/fa2.sinple'' = ''2.sinple''"
    by (simp add: split_tail_def)
  have h: "\<forall>k\<in>set ?keys. split_tail k \<noteq> []"
    using t1 t2 t3 by simp
  have run: "keys_by_fasta_split ?keys = Inr ?d"
    by (simp add: keys_by_fasta_split_def fasta_split_of_def t1 t2 t3)
  from keys_by_fasta_split_groups [OF h] obtain d where
    d: "keys_by_fasta_split ?keys = Inr d" "mset (concat (map snd d)) = mset ?keys"
    by (elim exE conjE) (rule that, assumption+)
  from d(1) run have "d = ?d" by simp
  with d(2) have "mset (concat (map snd ?d)) = mset ?keys" by simp
  then show ?thesis using t1 t2 t3 run by simp
qed

text \<open>
  A key whose final path segment ends with \<open>fa\<close>, or is empty, has no split id: the
  function raises and builds no group at all.
\<close>

theorem key_without_split_id_raises:
  "keys_by_fasta_split [''tmp/run/fa''] = Inl IndexError
   \<and> keys_by_fasta_split [''tmp/run/fa1.sinple'', ''tmp/run/''] = Inl IndexError"
  by (simp add: keys_by_fasta_split_def fasta_split_of_def split_tail_def)

section \<open>Properties of the chunk stage functions\<close>

subsection \<open>The effect of the primitive operations\<close>

lemma log_event_sel [simp]:
  "objects (log_event e w) = objects w" "cwd (log_event e w) = cwd w"
  "local_paths (log_event e w) = local_paths w" "trace (log_event e w) = trace w @ [e]"
  by (simp_all add: log_event_def)

lemma create_path_sel [simp]:
  "objects (create_path n w) = objects w" "cwd (create_path n w) = cwd w"
  "trace (create_path n w) = trace w"
  by (simp_all add: create_path_def)

lemma remove_path_sel [simp]:
  "objects (remove_path n w) = objects w" "cwd (remove_path n w) = cwd w"
  "trace (remove_path n w) = trace w"
  by (simp_all add: remove_path_def)

lemma put_object_sel [simp]:
  "cwd (put_object k w) = cwd w" "local_paths (put_object k w) = local_paths w"
  "trace (put_object k w) = trace w" "set (objects (put_object k w)) = insert k (set (objects w))"
  by (auto simp: put_object_def)

lemma foldr_create_path_sel [simp]:
  "objects (foldr create_path ns w) = objects w" "cwd (foldr create_path ns w) = cwd w"
  "trace (foldr create_path ns w) = trace w"
  by (induction ns) simp_all

lemma resolve_resolve_in: "resolve w n = resolve_in (cwd w) n"
  by (simp add: resolve_def resolve_in_def os_path_join_def)

lemma path_exists_alt: "path_exists w n = (resolve_in (cwd w) n \<in> set (local_paths w))"
  by (simp add: path_exists_def resolve_resolve_in)

lemma paths_log_event [simp]: "path_exists (log_event e w) n = path_exists w n"
  by (simp add: path_exists_alt)

lemma paths_put_object [simp]: "path_exists (put_object k w) n = path_exists w n"
  by (simp add: path_exists_alt)

lemma paths_create [simp]:
  "path_exists (create_path m w) n
     = (path_exists w n \<or> resolve_in (cwd w) n = resolve_in (cwd w) m)"
  by (auto simp: path_exists_alt create_path_def resolve_resolve_in)

lemma paths_remove [simp]:
  "path_exists (remove_path m w) n
     = (path_exists w n \<and> resolve_in (cwd w) n \<noteq> resolve_in (cwd w) m)"
  by (auto simp: path_exists_alt remove_path_def resolve_resolve_in)

lemma paths_foldr_create [simp]:
  "path_exists (foldr create_path ms w) n
     = (path_exists w n \<or> resolve_in (cwd w) n \<in> resolve_in (cwd w) ` set ms)"
  by (induction ms) auto




lemma mkdtemp_sel [simp]:
  "objects (mkdtemp d w) = objects w" "cwd (mkdtemp d w) = cwd w"
  "trace (mkdtemp d w) = trace w @ [Mkdtemp d]"
  by (simp_all add: mkdtemp_def)

lemma chdir_sel [simp]:
  "objects (chdir d w) = objects w" "cwd (chdir d w) = d"
  "local_paths (chdir d w) = local_paths w" "trace (chdir d w) = trace w @ [Chdir d]"
  by (simp_all add: chdir_def)

lemma paths_chdir_mkdtemp:
  "path_exists (chdir d w) n = (resolve_in d n \<in> set (local_paths w))"
  by (simp add: path_exists_alt)







lemma probe_missing:
  assumes "\<not> (k1 \<in> set (objects w) \<and> k2 \<in> set (objects w))"
  shows "\<exists>w1 hs. run_steps [head_object k1, head_object k2] w = (Some StorageNoSuchKeyError, w1)
           \<and> trace w1 = trace w @ hs \<and> uploaded_keys hs = [] \<and> tool_runs hs = []
           \<and> Mkdtemp d \<notin> set hs
           \<and> objects w1 = objects w \<and> cwd w1 = cwd w \<and> local_paths w1 = local_paths w"
  using assms by (auto simp: head_object_def log_event_def)

subsection \<open>\<open>align_mapper\<close>: skipping and recomputing\<close>




subsection \<open>The working directory\<close>

text \<open>
  \<open>gem_indexer\<close> releases its working directory on every path: whatever the body of its
  \<open>try\<close> does, the \<open>finally\<close> clause goes back to the previous directory and deletes the
  temporary one.
\<close>

lemma force_delete_removes:
  "d \<notin> set (local_paths (force_delete_local_path d w))"
  by (simp add: force_delete_local_path_def below_def)

lemma force_delete_cwd [simp]: "cwd (force_delete_local_path d w) = cwd w"
  by (simp add: force_delete_local_path_def)

lemma gem_indexer_releases:
  assumes "gem_indexer fa fac ev w = (r, w')" and "mkdtemp_dir ev \<notin> set (local_paths w)"
  shows "cwd w' = cwd w \<and> mkdtemp_dir ev \<notin> set (local_paths w')"
proof (cases "''gem/'' @ str_int fa @ ''.gem'' \<in> set (objects w)")
  case True
  then show ?thesis using assms by (auto simp: gem_indexer_def head_object_def Let_def)
next
  case False
  let ?d = "mkdtemp_dir ev"
  have rel: "cwd w2 = c \<and> ?d \<notin> set (local_paths w2)"
    if "try_finally body (run_steps [always (chdir c), always (force_delete_local_path ?d)]) w1
          = (r2, w2)"
    for body c w1 r2 w2
    using that by (cases "body w1") (auto simp: try_finally_def always_def force_delete_removes)
  show ?thesis
    using assms(1) False
    by (auto simp: gem_indexer_def head_object_def Let_def dest!: rel)
qed

text \<open>
  No step of \<open>align_mapper\<close> changes the working directory after the \<open>chdir\<close> into the
  temporary directory, and nothing goes back: whenever an output is missing, the function
  ends inside the temporary directory, whether it returns or raises.
\<close>

lemma run_steps_cwd:
  "\<forall>f\<in>set fs. \<forall>w. cwd (snd (f w)) = cwd w \<Longrightarrow> cwd (snd (run_steps fs w)) = cwd w"
proof (induction fs arbitrary: w)
  case Nil
  then show ?case by simp
next
  case (Cons f fs)
  obtain r w1 where fw: "f w = (r, w1)" by (cases "f w")
  have "cwd w1 = cwd w" using Cons.prems fw by (auto dest: spec [of _ w])
  moreover have "cwd (snd (run_steps fs w1)) = cwd w1" using Cons by simp
  ultimately show ?case using fw by (cases r) auto
qed

lemma align_steps_cwd:
  "cwd (snd (run_steps (align_steps p run_id fa fac fq fqc ev) w)) = cwd w"
  by (rule run_steps_cwd)
    (simp add: align_steps_def Let_def fetch_chunk_def getsize_def download_file_def run_tool_def
      move_def zip_write_def upload_file_def)

lemma align_mapper_stays_in_working_directory:
  assumes "align_mapper p run_id fa fac fq fqc ev w = (r, w')"
    and "\<not> (map_index_key p run_id fa fq \<in> set (objects w)
            \<and> filtered_map_key p run_id fa fq \<in> set (objects w))"
  shows "cwd w' = mkdtemp_dir ev"
proof -
  let ?d = "mkdtemp_dir ev"
  let ?body = "run_steps (align_steps p run_id fa fac fq fqc ev)"
  from probe_missing [OF assms(2), of ?d] obtain w1 where
    p: "run_steps [head_object (map_index_key p run_id fa fq),
                   head_object (filtered_map_key p run_id fa fq)] w
          = (Some StorageNoSuchKeyError, w1)"
    by blast
  obtain rb w4 where b: "?body (chdir ?d (mkdtemp ?d w1)) = (rb, w4)"
    by (cases "?body (chdir ?d (mkdtemp ?d w1))")
  have "cwd (snd (?body (chdir ?d (mkdtemp ?d w1)))) = cwd (chdir ?d (mkdtemp ?d w1))"
    by (rule align_steps_cwd)
  then have "cwd w4 = ?d" using b by simp
  moreover have "w' = w4"
    using assms(1) p b
    by (simp add: align_mapper_def Let_def try_finally_def always_def split: option.splits)
  ultimately show ?thesis by simp
qed

text \<open>
  C8. \<open>align_mapper\<close> does not: its \<open>finally\<close> clause only prints. After a run that
  returns, and after a run that raises because the fetch of the fastq chunk failed, the
  temporary directory still exists and the process is still inside it, not in the
  directory it started from.
\<close>

theorem align_mapper_keeps_working_directory:
  "cwd example_world = ''/home/worker''
   \<and> (case align_mapper example_params ''run1'' 3 \<lparr>chunk_id = 3\<rparr> 12 \<lparr>chunk_id = 12\<rparr>
              example_env example_world of
         (r, w') \<Rightarrow>
           r = Inr (12, 3, ''tmp/run1/gem-mapper/fq12/fa3/SRR000000_map.index.txt.bz2'',
                    ''tmp/run1/gem-mapper/fq12/fa3/SRR000000_filt_wline_no.map.bz2'')
           \<and> cwd w' = ''/tmp/tmpab12'' \<and> ''/tmp/tmpab12'' \<in> set (local_paths w'))
   \<and> (case align_mapper example_params ''run1'' 3 \<lparr>chunk_id = 3\<rparr> 12 \<lparr>chunk_id = 12\<rparr>
              (example_env\<lparr>fetch_fastq_ok := False\<rparr>) example_world of
         (r, w') \<Rightarrow>
           r = Inl FetchError
           \<and> cwd w' = ''/tmp/tmpab12'' \<and> ''/tmp/tmpab12'' \<in> set (local_paths w'))"
  by code_simp

subsection \<open>The exit status of the external tool\<close>

text \<open>
  \<open>gem_indexer\<close> asserts the exit status of gem-indexer, with 1 as the status of success:
  on status 0 it raises \<open>AssertionError\<close> and uploads nothing, on status 1 it uploads the
  index.
\<close>

lemma gem_indexer_status:
  "fst (gem_indexer 3 \<lparr>chunk_id = 3\<rparr> (example_env\<lparr>tool_outputs := [''3.gem'']\<rparr>)
         (example_world\<lparr>objects := []\<rparr>)) = Some AssertionError"
  "(case gem_indexer 3 \<lparr>chunk_id = 3\<rparr>
           (example_env\<lparr>tool_outputs := [''3.gem''], tool_returncode := 1\<rparr>)
           (example_world\<lparr>objects := []\<rparr>) of
      (r, w') \<Rightarrow> r = None \<and> objects w' = [''gem/3.gem''])"
  by code_simp+

text \<open>
  The exit status of the script has no influence on \<open>align_mapper\<close> at all.
\<close>

lemma align_steps_status_blind:
  "align_steps p run_id fa fac fq fqc (ev\<lparr>tool_returncode := x\<rparr>)
     = align_steps p run_id fa fac fq fqc ev"
  by (simp add: align_steps_def)

lemma align_mapper_status_blind:
  "align_mapper p run_id fa fac fq fqc (ev\<lparr>tool_returncode := x\<rparr>) w
     = align_mapper p run_id fa fac fq fqc ev w"
  by (simp add: align_mapper_def align_steps_status_blind Let_def
      split: prod.split option.split py_error.split)

text \<open>
  C9. \<open>align_mapper\<close> never reads the exit status of its script. When the script exits
  with the non-zero status 1 and has written its two files, the function uploads both
  artifacts and returns their keys as on success.
\<close>

theorem align_mapper_ignores_exit_status:
  "tool_returncode (example_env\<lparr>tool_returncode := 1\<rparr>) \<noteq> 0
   \<and> (case align_mapper example_params ''run1'' 3 \<lparr>chunk_id = 3\<rparr> 12 \<lparr>chunk_id = 12\<rparr>
              (example_env\<lparr>tool_returncode := 1\<rparr>) example_world of
         (r, w') \<Rightarrow>
           r = Inr (12, 3, ''tmp/run1/gem-mapper/fq12/fa3/SRR000000_map.index.txt.bz2'',
                    ''tmp/run1/gem-mapper/fq12/fa3/SRR000000_filt_wline_no.map.bz2'')
           \<and> uploaded_keys (trace w')
               = [''tmp/run1/gem-mapper/fq12/fa3/SRR000000_map.index.txt.bz2'',
                  ''tmp/run1/gem-mapper/fq12/fa3/SRR000000_filt_wline_no.map.bz2''])"
  by code_simp

end
